theory Spec2Isabelle
  imports Main "HOL-Library.Multiset"
begin

section \<open>The elevator dispatcher of \<open>elevator.cc\<close>\<close>

text \<open>
  The program keeps its whole state in global arrays: one entry per elevator for the
  floor, the travel direction, the retrieval destination and the two priority queues of
  inside buttons, and one entry per floor for the two outside buttons. The model is a
  record of these arrays. A C++ array is a function from its \<open>int\<close> index; every
  access the source makes is guarded in the model by the bounds of the array, and an access
  outside them (undefined behaviour in C++) is the result \<open>Abort out_of_bounds\<close>.
  The C++ \<open>int\<close> is the type of the integers: every floor and index that is computed
  lies within a few floors of the building, far from the limits of \<open>int\<close>.

  A \<open>std::priority_queue\<close> is a list kept in the order in which \<open>pop\<close> would
  deliver it: \<open>top\<close> is the head, \<open>pop\<close> the tail, \<open>push\<close> an ordered insertion
  that keeps equal entries (the container is a multiset), \<open>size\<close> the length. The min
  heap \<open>higher_floors_pressed\<close> is ascending, the max heap \<open>lower_floors_pressed\<close>
  is descending.
\<close>

subsection \<open>Constants and data\<close>

definition NUM_ELEVATORS :: int where
  "NUM_ELEVATORS = 2"

definition NUM_FLOORS :: int where
  "NUM_FLOORS = 5"

datatype direction =
    up
  | down
  | neutral
  | retrieval_above_going_up
  | retrieval_above_going_down
  | retrieval_below_going_up
  | retrieval_below_going_down

text \<open>The value of an enumerator when it is used as an array index.\<close>

fun enum_value :: "direction \<Rightarrow> int" where
  "enum_value up = 0"
| "enum_value down = 1"
| "enum_value neutral = 2"
| "enum_value retrieval_above_going_up = 3"
| "enum_value retrieval_above_going_down = 4"
| "enum_value retrieval_below_going_up = 5"
| "enum_value retrieval_below_going_down = 6"

record state =
  floors :: "int \<Rightarrow> int"
  directions :: "int \<Rightarrow> direction"
  destinations :: "int \<Rightarrow> int"
  higher_floors_pressed :: "int \<Rightarrow> int list"
  lower_floors_pressed :: "int \<Rightarrow> int list"
  up_button :: "int \<Rightarrow> bool"
  down_button :: "int \<Rightarrow> bool"

datatype exn = invalid_argument string

datatype failure = assertion_failed | out_of_bounds

text \<open>
  A call returns normally (\<open>Ok\<close>), throws a C++ exception (\<open>Throw\<close>, with the
  globals as they are at the throw), or stops the process (\<open>Abort\<close>: a failed
  \<open>assert\<close> or an access outside an array).
\<close>

datatype 'a result = Ok 'a | Throw exn state | Abort failure

definition in_floors :: "int \<Rightarrow> bool" where
  "in_floors i \<longleftrightarrow> 0 \<le> i \<and> i < NUM_FLOORS"

definition in_elevators :: "int \<Rightarrow> bool" where
  "in_elevators i \<longleftrightarrow> 0 \<le> i \<and> i < NUM_ELEVATORS"

text \<open>The globals of the program before any call: static storage is zero-initialised.\<close>

definition initial_state :: state where
  "initial_state =
     \<lparr> floors = (\<lambda>_. 0), directions = (\<lambda>_. up), destinations = (\<lambda>_. 0),
       higher_floors_pressed = (\<lambda>_. []), lower_floors_pressed = (\<lambda>_. []),
       up_button = (\<lambda>_. False), down_button = (\<lambda>_. False) \<rparr>"

subsection \<open>Priority queues\<close>

definition push_higher :: "int \<Rightarrow> int list \<Rightarrow> int list" where
  "push_higher x pq = insort x pq"

definition push_lower :: "int \<Rightarrow> int list \<Rightarrow> int list" where
  "push_lower x pq = insort_key uminus x pq"

definition top_of_pq_equal_floor :: "int list \<Rightarrow> int \<Rightarrow> bool" where
  "top_of_pq_equal_floor pq floor \<longleftrightarrow> pq \<noteq> [] \<and> hd pq = floor"

subsection \<open>Motor and button actions\<close>

definition move_up_one_floor :: "state \<Rightarrow> int \<Rightarrow> state result" where
  "move_up_one_floor s elevator =
     (if floors s elevator < NUM_FLOORS - 1
      then Ok (s\<lparr>floors := (floors s)(elevator := floors s elevator + 1)\<rparr>)
      else Abort assertion_failed)"

definition move_down_one_floor :: "state \<Rightarrow> int \<Rightarrow> state result" where
  "move_down_one_floor s elevator =
     (if floors s elevator > 0
      then Ok (s\<lparr>floors := (floors s)(elevator := floors s elevator - 1)\<rparr>)
      else Abort assertion_failed)"

definition move_to_bottom_floor :: "state \<Rightarrow> int \<Rightarrow> state" where
  "move_to_bottom_floor s elevator = s\<lparr>floors := (floors s)(elevator := 0)\<rparr>"

definition unpress_external_button :: "state \<Rightarrow> direction \<Rightarrow> int \<Rightarrow> state result" where
  "unpress_external_button s dir floor =
     (if \<not> (dir = up \<or> dir = down) then Abort assertion_failed
      else if \<not> in_floors floor then Abort out_of_bounds
      else if dir = up then Ok (s\<lparr>up_button := (up_button s)(floor := False)\<rparr>)
      else Ok (s\<lparr>down_button := (down_button s)(floor := False)\<rparr>))"

subsection \<open>reset\<close>

definition clear_buttons :: "int \<Rightarrow> state \<Rightarrow> state" where
  "clear_buttons i s =
     s\<lparr>up_button := (up_button s)(i := False), down_button := (down_button s)(i := False)\<rparr>"

definition reset_elevator :: "int \<Rightarrow> state \<Rightarrow> state" where
  "reset_elevator i s =
     (move_to_bottom_floor s i)
       \<lparr>directions := (directions s)(i := neutral),
        destinations := (destinations s)(i := - 1),
        higher_floors_pressed := (higher_floors_pressed s)(i := []),
        lower_floors_pressed := (lower_floors_pressed s)(i := [])\<rparr>"

definition reset :: "state \<Rightarrow> state" where
  "reset s = fold reset_elevator [0 .. NUM_ELEVATORS - 1] (fold clear_buttons [0 .. NUM_FLOORS - 1] s)"

subsection \<open>press_outside\<close>

definition press_outside :: "state \<Rightarrow> int \<Rightarrow> direction \<Rightarrow> state result" where
  "press_outside s floor dir =
     (if \<not> (floor \<ge> 0 \<and> floor < NUM_FLOORS) then Abort assertion_failed
      else case dir of
        up \<Rightarrow>
          if floor = NUM_FLOORS - 1
          then Throw (invalid_argument ''there is no up button on topmost floor'') s
          else if \<not> in_floors (enum_value dir) then Abort out_of_bounds
          else Ok (s\<lparr>up_button := (up_button s)(enum_value dir := True)\<rparr>)
      | down \<Rightarrow>
          if floor = 0
          then Throw (invalid_argument ''there is no down button on floor 1'') s
          else if \<not> in_floors (enum_value dir) then Abort out_of_bounds
          else Ok (s\<lparr>down_button := (down_button s)(enum_value dir := True)\<rparr>)
      | _ \<Rightarrow>
          Throw (invalid_argument ''there is no button for the neutral and retrieval cases'') s)"

subsection \<open>press_inside\<close>

definition press_inside :: "state \<Rightarrow> int \<Rightarrow> int \<Rightarrow> state result" where
  "press_inside s elevator floor =
     (if \<not> (floor \<ge> 0 \<and> floor < NUM_FLOORS) then Abort assertion_failed
      else if \<not> (elevator \<ge> 0 \<and> elevator < NUM_ELEVATORS) then Abort assertion_failed
      else
        let s1 = (if directions s elevator = retrieval_above_going_down
                     \<or> directions s elevator = retrieval_below_going_up
                  then s\<lparr>directions := (directions s)(elevator := neutral)\<rparr> else s)
        in
          if floor > floors s1 elevator then
            Ok (s1\<lparr>higher_floors_pressed := (higher_floors_pressed s1)
                     (elevator := push_higher floor (higher_floors_pressed s1 elevator))\<rparr>)
          else if floor < floors s1 elevator then
            Ok (s1\<lparr>lower_floors_pressed := (lower_floors_pressed s1)
                     (elevator := push_lower floor (lower_floors_pressed s1 elevator))\<rparr>)
          else
            (case directions s1 elevator of
               up \<Rightarrow>
                 Ok (s1\<lparr>higher_floors_pressed := (higher_floors_pressed s1)
                          (elevator := push_higher floor (higher_floors_pressed s1 elevator))\<rparr>)
             | retrieval_above_going_up \<Rightarrow>
                 Ok (s1\<lparr>higher_floors_pressed := (higher_floors_pressed s1)
                          (elevator := push_higher floor (higher_floors_pressed s1 elevator))\<rparr>)
             | down \<Rightarrow>
                 Ok (s1\<lparr>lower_floors_pressed := (lower_floors_pressed s1)
                          (elevator := push_lower floor (lower_floors_pressed s1 elevator))\<rparr>)
             | retrieval_below_going_down \<Rightarrow>
                 Ok (s1\<lparr>lower_floors_pressed := (lower_floors_pressed s1)
                          (elevator := push_lower floor (lower_floors_pressed s1 elevator))\<rparr>)
             | neutral \<Rightarrow>
                 Ok (s1\<lparr>directions := (directions s1)(elevator := up),
                        higher_floors_pressed := (higher_floors_pressed s1)
                          (elevator := push_higher floor (higher_floors_pressed s1 elevator))\<rparr>)
             | _ \<Rightarrow> Ok s1))"

subsection \<open>open\<close>

definition open_door :: "state \<Rightarrow> int \<Rightarrow> state result" where
  "open_door s elevator =
     (if \<not> (elevator \<ge> 0 \<and> elevator < NUM_ELEVATORS) then Abort assertion_failed else Ok s)"

definition close_door :: "state \<Rightarrow> int \<Rightarrow> state result" where
  "close_door s elevator =
     (if \<not> (elevator \<ge> 0 \<and> elevator < NUM_ELEVATORS) then Abort assertion_failed else Ok s)"

definition pop_higher_at :: "state \<Rightarrow> int \<Rightarrow> int \<Rightarrow> state" where
  "pop_higher_at s elevator floor =
     (if top_of_pq_equal_floor (higher_floors_pressed s elevator) floor
      then s\<lparr>higher_floors_pressed := (higher_floors_pressed s)
               (elevator := tl (higher_floors_pressed s elevator))\<rparr>
      else s)"

definition pop_lower_at :: "state \<Rightarrow> int \<Rightarrow> int \<Rightarrow> state" where
  "pop_lower_at s elevator floor =
     (if top_of_pq_equal_floor (lower_floors_pressed s elevator) floor
      then s\<lparr>lower_floors_pressed := (lower_floors_pressed s)
               (elevator := tl (lower_floors_pressed s elevator))\<rparr>
      else s)"

definition unpress_for_direction :: "state \<Rightarrow> int \<Rightarrow> int \<Rightarrow> state result" where
  "unpress_for_direction s elevator floor =
     (case directions s elevator of
        up \<Rightarrow> unpress_external_button s up floor
      | retrieval_above_going_up \<Rightarrow> unpress_external_button s up floor
      | retrieval_below_going_up \<Rightarrow> unpress_external_button s up floor
      | down \<Rightarrow> unpress_external_button s down floor
      | retrieval_above_going_down \<Rightarrow> unpress_external_button s down floor
      | retrieval_below_going_down \<Rightarrow> unpress_external_button s down floor
      | neutral \<Rightarrow>
          Throw (invalid_argument ''the elevator shouldn't open while in neutral'') s)"

text \<open>
  \<open>open\<close> of the source. The two \<open>pop\<close>s come before the \<open>switch\<close>, so
  the exception of the \<open>neutral\<close> case leaves the queues as popped.
\<close>

definition "open" :: "state \<Rightarrow> int \<Rightarrow> state result" where
  "open s elevator =
     (if \<not> (elevator \<ge> 0 \<and> elevator < NUM_ELEVATORS) then Abort assertion_failed
      else
        (case open_door s elevator of
           Abort f \<Rightarrow> Abort f
         | Throw e t \<Rightarrow> Throw e t
         | Ok s0 \<Rightarrow>
             (let floor = floors s0 elevator;
                  s1 = pop_higher_at s0 elevator floor;
                  s2 = pop_lower_at s1 elevator floor
              in (case unpress_for_direction s2 elevator floor of
                    Abort f \<Rightarrow> Abort f
                  | Throw e t \<Rightarrow> Throw e t
                  | Ok s3 \<Rightarrow> close_door s3 elevator))))"


subsection \<open>move\<close>

definition retrieve :: "state \<Rightarrow> int \<Rightarrow> direction \<Rightarrow> int \<Rightarrow> state" where
  "retrieve s elevator dir floor =
     s\<lparr>directions := (directions s)(elevator := dir),
       destinations := (destinations s)(elevator := floor)\<rparr>"

text \<open>
  The \<open>for\<close> loop of the \<open>neutral\<close> case, from offset \<open>i\<close> on: \<open>Ok (Some s')\<close>
  when it leaves through one of its two \<open>break\<close>s, \<open>Ok None\<close> when it runs to
  \<open>NUM_FLOORS\<close> without finding a pressed button.
\<close>

function neutral_scan :: "state \<Rightarrow> int \<Rightarrow> int \<Rightarrow> int \<Rightarrow> state option result" where
  "neutral_scan s elevator floor i =
     (if i < NUM_FLOORS then
        if floor + i < NUM_FLOORS \<and> \<not> in_floors (floor + i) then Abort out_of_bounds
        else if floor + i < NUM_FLOORS \<and> (up_button s (floor + i) \<or> down_button s (floor + i)) then
          Ok (Some (retrieve s elevator
                 (if up_button s (floor + i) then retrieval_above_going_up
                  else retrieval_above_going_down) (floor + i)))
        else if floor - i \<ge> 0 \<and> \<not> in_floors (floor - i) then Abort out_of_bounds
        else if floor - i \<ge> 0 \<and> (up_button s (floor - i) \<or> down_button s (floor - i)) then
          Ok (Some (retrieve s elevator
                 (if up_button s (floor - i) then retrieval_below_going_up
                  else retrieval_below_going_down) (floor - i)))
        else neutral_scan s elevator floor (i + 1)
      else Ok None)"
  by pat_completeness auto
termination
  by (relation "measure (\<lambda>(s, elevator, floor, i). nat (NUM_FLOORS - i))") auto

declare neutral_scan.simps [simp del]

text \<open>
  The \<open>while (searching)\<close> loop. An iteration that finds nothing changes nothing and is
  followed by the next one, so the loop may run forever: the value \<open>None\<close>.
\<close>

partial_function (option) neutral_search :: "state \<Rightarrow> int \<Rightarrow> state result option" where
  "neutral_search s elevator =
     (if higher_floors_pressed s elevator \<noteq> [] \<or> lower_floors_pressed s elevator \<noteq> [] then
        Some (Ok (s\<lparr>directions := (directions s)
                (elevator :=
                   (if int (length (higher_floors_pressed s elevator))
                        > int (length (lower_floors_pressed s elevator))
                    then up else down))\<rparr>))
      else
        (case neutral_scan s elevator (floors s elevator) 1 of
           Abort f \<Rightarrow> Some (Abort f)
         | Throw e t \<Rightarrow> Some (Throw e t)
         | Ok (Some s') \<Rightarrow> Some (Ok s')
         | Ok None \<Rightarrow> neutral_search s elevator))"

definition arrive :: "state \<Rightarrow> int \<Rightarrow> direction \<Rightarrow> state" where
  "arrive s elevator dir =
     s\<lparr>destinations := (destinations s)(elevator := - 1),
       directions := (directions s)(elevator := dir)\<rparr>"

definition abandon :: "state \<Rightarrow> int \<Rightarrow> state" where
  "abandon s elevator =
     s\<lparr>directions := (directions s)(elevator := neutral),
       destinations := (destinations s)(elevator := - 1)\<rparr>"

definition keep_moving :: "state result \<Rightarrow> (bool \<times> state) result" where
  "keep_moving r = (case r of Ok s' \<Rightarrow> Ok (False, s') | Throw e t \<Rightarrow> Throw e t | Abort f \<Rightarrow> Abort f)"

text \<open>
  One iteration of the \<open>while (!should_open_now)\<close> loop of \<open>move\<close> (one scheduler
  evaluation, a tick): the value of \<open>should_open_now\<close> after it, and the globals.
\<close>

definition move_step :: "state \<Rightarrow> int \<Rightarrow> (bool \<times> state) result option" where
  "move_step s elevator =
     (if \<not> in_elevators elevator then Some (Abort out_of_bounds)
      else
        let floor = floors s elevator; destination = destinations s elevator in
        (case directions s elevator of
           up \<Rightarrow>
             Some (if \<not> in_floors floor then Abort out_of_bounds
                   else if up_button s floor
                           \<or> top_of_pq_equal_floor (higher_floors_pressed s elevator) floor
                   then Ok (True, s)
                   else if higher_floors_pressed s elevator = []
                   then Ok (False, s\<lparr>directions := (directions s)(elevator := neutral)\<rparr>)
                   else keep_moving (move_up_one_floor s elevator))
         | retrieval_above_going_up \<Rightarrow>
             Some (if \<not> in_floors floor then Abort out_of_bounds
                   else if up_button s floor \<or> destination = floor
                           \<or> top_of_pq_equal_floor (higher_floors_pressed s elevator) floor
                   then Ok (True, if destination = floor then arrive s elevator up else s)
                   else if \<not> in_floors destination then Abort out_of_bounds
                   else if \<not> up_button s destination then Ok (False, abandon s elevator)
                   else keep_moving (move_up_one_floor s elevator))
         | retrieval_below_going_up \<Rightarrow>
             Some (if \<not> in_floors destination then Abort out_of_bounds
                   else if \<not> up_button s destination then Ok (False, abandon s elevator)
                   else if destination = floor then Ok (True, arrive s elevator up)
                   else keep_moving (move_down_one_floor s elevator))
         | down \<Rightarrow>
             Some (if \<not> in_floors floor then Abort out_of_bounds
                   else if down_button s floor
                           \<or> top_of_pq_equal_floor (lower_floors_pressed s elevator) floor
                   then Ok (True, s)
                   else if lower_floors_pressed s elevator = []
                   then Ok (False, s\<lparr>directions := (directions s)(elevator := neutral)\<rparr>)
                   else keep_moving (move_down_one_floor s elevator))
         | retrieval_above_going_down \<Rightarrow>
             Some (if \<not> in_floors destination then Abort out_of_bounds
                   else if \<not> down_button s destination then Ok (False, abandon s elevator)
                   else if destination = floor then Ok (True, arrive s elevator down)
                   else keep_moving (move_up_one_floor s elevator))
         | retrieval_below_going_down \<Rightarrow>
             Some (if \<not> in_floors floor then Abort out_of_bounds
                   else if down_button s floor \<or> destination = floor
                           \<or> top_of_pq_equal_floor (lower_floors_pressed s elevator) floor
                   then Ok (True, if destination = floor then arrive s elevator down else s)
                   else if \<not> in_floors destination then Abort out_of_bounds
                   else if \<not> down_button s destination then Ok (False, abandon s elevator)
                   else keep_moving (move_down_one_floor s elevator))
         | neutral \<Rightarrow>
             map_option keep_moving (neutral_search s elevator)))"

text \<open>\<open>move\<close> repeats the step until \<open>should_open_now\<close> is set; it may never return.\<close>

partial_function (option) move :: "state \<Rightarrow> int \<Rightarrow> state result option" where
  "move s elevator =
     (case move_step s elevator of
        None \<Rightarrow> None
      | Some (Abort f) \<Rightarrow> Some (Abort f)
      | Some (Throw e t) \<Rightarrow> Some (Throw e t)
      | Some (Ok (should_open_now, s')) \<Rightarrow>
          if should_open_now then Some (Ok s') else move s' elevator)"

subsection \<open>Reachable states\<close>

text \<open>
  The states the program can be in between two scheduler evaluations, from a \<open>reset\<close>
  on: the buttons, the door cycle and single steps of \<open>move\<close> of any elevator, in
  any order. A caller that catches an exception goes on from the globals at the throw.
  The states between two complete calls of \<open>move\<close> are among them.
\<close>

inductive reachable :: "state \<Rightarrow> bool" where
  reach_reset: "reachable (reset s)"
| reach_press_outside: "reachable s \<Longrightarrow> press_outside s floor dir = Ok s' \<Longrightarrow> reachable s'"
| reach_press_outside_throw:
    "reachable s \<Longrightarrow> press_outside s floor dir = Throw e s' \<Longrightarrow> reachable s'"
| reach_press_inside: "reachable s \<Longrightarrow> press_inside s elevator floor = Ok s' \<Longrightarrow> reachable s'"
| reach_open: "reachable s \<Longrightarrow> open s elevator = Ok s' \<Longrightarrow> reachable s'"
| reach_open_throw: "reachable s \<Longrightarrow> open s elevator = Throw e s' \<Longrightarrow> reachable s'"
| reach_move_step:
    "reachable s \<Longrightarrow> move_step s elevator = Some (Ok (should_open_now, s')) \<Longrightarrow> reachable s'"

subsection \<open>Invariant and progress of one elevator\<close>

text \<open>
  What holds of every elevator in every reachable state: its floor exists; the ascending
  queue is in order and holds floors of the building from the elevator's floor upwards, the
  descending queue is in order and holds floors from its floor downwards; in a retrieval
  direction the destination is a floor of the building on the side the direction names; and
  in the two retrieval directions that \<open>press_inside\<close> gives up, both queues are empty.
\<close>

definition elevator_inv :: "state \<Rightarrow> int \<Rightarrow> bool" where
  "elevator_inv s e \<longleftrightarrow>
     in_floors (floors s e)
   \<and> sorted (higher_floors_pressed s e)
   \<and> (\<forall>x \<in> set (higher_floors_pressed s e). floors s e \<le> x \<and> x < NUM_FLOORS)
   \<and> sorted (map uminus (lower_floors_pressed s e))
   \<and> (\<forall>x \<in> set (lower_floors_pressed s e). 0 \<le> x \<and> x \<le> floors s e)
   \<and> (directions s e = retrieval_above_going_up \<or> directions s e = retrieval_above_going_down
        \<longrightarrow> floors s e \<le> destinations s e \<and> destinations s e < NUM_FLOORS)
   \<and> (directions s e = retrieval_below_going_up \<or> directions s e = retrieval_below_going_down
        \<longrightarrow> 0 \<le> destinations s e \<and> destinations s e \<le> floors s e)
   \<and> (directions s e = retrieval_above_going_down \<or> directions s e = retrieval_below_going_up
        \<longrightarrow> higher_floors_pressed s e = [] \<and> lower_floors_pressed s e = [])"




subsection \<open>States between calls\<close>







subsection \<open>The search policy as the specification words it\<close>

text \<open>
  The specification describes the \<open>neutral\<close> case as a policy: the floors are examined
  in the order \<open>floor + 1\<close>, \<open>floor - 1\<close>, \<open>floor + 2\<close>, \<open>floor - 2\<close>, ... up to
  offset \<open>NUM_FLOORS - 1\<close>, and the first existing floor with a pressed outside button is
  the destination. These definitions follow the specification, not the loops of the source;
  the two are compared below.
\<close>

definition spec_scan_order :: "int \<Rightarrow> int list" where
  "spec_scan_order floor = concat (map (\<lambda>i. [floor + i, floor - i]) [1 .. NUM_FLOORS - 1])"

definition spec_hall_call_at :: "state \<Rightarrow> int \<Rightarrow> bool" where
  "spec_hall_call_at s c \<longleftrightarrow> in_floors c \<and> (up_button s c \<or> down_button s c)"

definition spec_retrieval_mode :: "state \<Rightarrow> int \<Rightarrow> int \<Rightarrow> direction" where
  "spec_retrieval_mode s floor c =
     (if c > floor
      then (if up_button s c then retrieval_above_going_up else retrieval_above_going_down)
      else (if up_button s c then retrieval_below_going_up else retrieval_below_going_down))"

definition spec_neutral_policy :: "state \<Rightarrow> int \<Rightarrow> state option" where
  "spec_neutral_policy s elevator =
     (if higher_floors_pressed s elevator \<noteq> [] \<or> lower_floors_pressed s elevator \<noteq> [] then
        Some (s\<lparr>directions := (directions s)
                (elevator :=
                   (if length (higher_floors_pressed s elevator)
                        > length (lower_floors_pressed s elevator)
                    then up else down))\<rparr>)
      else
        (case find (spec_hall_call_at s) (spec_scan_order (floors s elevator)) of
           None \<Rightarrow> None
         | Some c \<Rightarrow>
             Some (s\<lparr>directions := (directions s)
                       (elevator := spec_retrieval_mode s (floors s elevator) c),
                     destinations := (destinations s)(elevator := c)\<rparr>)))"

subsection \<open>States of the scenarios\<close>

text \<open>Names for the concrete states that the evaluations below pass through.\<close>

definition hall_call_3_up :: state where
  "hall_call_3_up =
     (reset initial_state)\<lparr>up_button := (up_button (reset initial_state))(0 := True)\<rparr>"

definition pressed_once :: state where
  "pressed_once =
     (reset initial_state)
       \<lparr>higher_floors_pressed := (higher_floors_pressed (reset initial_state))(0 := [2])\<rparr>"

definition pressed_twice :: state where
  "pressed_twice =
     pressed_once\<lparr>higher_floors_pressed := (higher_floors_pressed pressed_once)(0 := [2, 2])\<rparr>"

definition going_up :: state where
  "going_up = pressed_twice\<lparr>directions := (directions pressed_twice)(0 := up)\<rparr>"

definition stopped_at_2 :: state where
  "stopped_at_2 =
     pressed_twice\<lparr>directions := (directions pressed_twice)(0 := up),
                    floors := (floors pressed_twice)(0 := 2)\<rparr>"

definition opened_at_2 :: state where
  "opened_at_2 =
     stopped_at_2\<lparr>higher_floors_pressed := (higher_floors_pressed stopped_at_2)(0 := [2]),
                   up_button := (up_button stopped_at_2)(2 := False)\<rparr>"

definition flag_3_up :: state where
  "flag_3_up =
     (reset initial_state)\<lparr>up_button := (up_button (reset initial_state))(3 := True)\<rparr>"

definition arrived_at_3 :: state where
  "arrived_at_3 =
     flag_3_up\<lparr>floors := (floors flag_3_up)(0 := 3),
                destinations := (destinations flag_3_up)(0 := - 1),
                directions := (directions flag_3_up)(0 := up)\<rparr>"

definition opened_at_3 :: state where
  "opened_at_3 = arrived_at_3\<lparr>up_button := (up_button arrived_at_3)(3 := False)\<rparr>"

definition idle_at_3 :: state where
  "idle_at_3 = opened_at_3\<lparr>directions := (directions opened_at_3)(0 := neutral)\<rparr>"

definition hall_call_1_down :: state where
  "hall_call_1_down =
     (reset initial_state)\<lparr>down_button := (down_button (reset initial_state))(1 := True)\<rparr>"

definition retrieving_1 :: state where
  "retrieving_1 =
     hall_call_1_down\<lparr>directions := (directions hall_call_1_down)(0 := retrieval_above_going_down),
                       destinations := (destinations hall_call_1_down)(0 := 1)\<rparr>"


definition pressed_while_retrieving :: state where
  "pressed_while_retrieving =
     retrieving_1\<lparr>directions := (directions retrieving_1)(0 := neutral),
                   higher_floors_pressed := (higher_floors_pressed retrieving_1)(0 := [2])\<rparr>"

section \<open>Basic facts\<close>

lemma floors_upto: "[0 .. NUM_FLOORS - 1] = [0, 1, 2, 3, 4]"
  by (simp add: NUM_FLOORS_def upto.simps)

lemma elevators_upto: "[0 .. NUM_ELEVATORS - 1] = [0, 1]"
  by (simp add: NUM_ELEVATORS_def upto.simps)

lemma in_floors_cases: "in_floors i \<longleftrightarrow> i = 0 \<or> i = 1 \<or> i = 2 \<or> i = 3 \<or> i = 4"
  unfolding in_floors_def NUM_FLOORS_def by arith

lemma in_elevators_cases: "in_elevators i \<longleftrightarrow> i = 0 \<or> i = 1"
  unfolding in_elevators_def NUM_ELEVATORS_def by arith

lemmas reset_unfold =
  reset_def floors_upto elevators_upto reset_elevator_def clear_buttons_def move_to_bottom_floor_def

lemma reset_floors: "floors (reset s) e = (if in_elevators e then 0 else floors s e)"
  by (simp add: reset_unfold in_elevators_cases)

lemma reset_directions: "directions (reset s) e = (if in_elevators e then neutral else directions s e)"
  by (simp add: reset_unfold in_elevators_cases)

lemma reset_destinations: "destinations (reset s) e = (if in_elevators e then - 1 else destinations s e)"
  by (simp add: reset_unfold in_elevators_cases)

lemma reset_higher:
  "higher_floors_pressed (reset s) e = (if in_elevators e then [] else higher_floors_pressed s e)"
  by (simp add: reset_unfold in_elevators_cases)

lemma reset_lower:
  "lower_floors_pressed (reset s) e = (if in_elevators e then [] else lower_floors_pressed s e)"
  by (simp add: reset_unfold in_elevators_cases)

lemma reset_up_button: "up_button (reset s) i = (if in_floors i then False else up_button s i)"
  by (simp add: reset_unfold in_floors_cases)

lemma reset_down_button: "down_button (reset s) i = (if in_floors i then False else down_button s i)"
  by (simp add: reset_unfold in_floors_cases)

lemmas reset_simps =
  reset_floors reset_directions reset_destinations reset_higher reset_lower
  reset_up_button reset_down_button

text \<open>
  The search loop has a closed form: an iteration of the \<open>while\<close> loop that finds
  nothing leaves every global as it was, so the loop never ends from there.
\<close>

lemma neutral_search_diverges:
  assumes "higher_floors_pressed s e = []" "lower_floors_pressed s e = []"
    and "neutral_scan s e (floors s e) 1 = Ok None"
  shows "neutral_search s e = None"
proof -
  have "\<not> (higher_floors_pressed s' e' = [] \<and> lower_floors_pressed s' e' = []
           \<and> neutral_scan s' e' (floors s' e') 1 = Ok None)"
    if h: "neutral_search s' e' = Some r" for s' e' r
    by (rule neutral_search.raw_induct[OF _ h]) (auto split: if_splits result.splits option.splits)
  with assms show ?thesis
    by (cases "neutral_search s e") auto
qed

lemma neutral_search_eq:
  "neutral_search s e =
     (if higher_floors_pressed s e \<noteq> [] \<or> lower_floors_pressed s e \<noteq> [] then
        Some (Ok (s\<lparr>directions := (directions s)
                (e := (if int (length (higher_floors_pressed s e))
                        > int (length (lower_floors_pressed s e))
                    then up else down))\<rparr>))
      else
        (case neutral_scan s e (floors s e) 1 of
           Abort f \<Rightarrow> Some (Abort f)
         | Throw x t \<Rightarrow> Some (Throw x t)
         | Ok (Some s') \<Rightarrow> Some (Ok s')
         | Ok None \<Rightarrow> None))"
proof (cases "higher_floors_pressed s e = [] \<and> lower_floors_pressed s e = []
           \<and> neutral_scan s e (floors s e) 1 = Ok None")
  case True
  then show ?thesis by (simp add: neutral_search_diverges)
next
  case False
  then show ?thesis
    by (subst neutral_search.simps) (auto split: result.splits option.splits)
qed

section \<open>Runs of the scenarios\<close>

text \<open>
  The calls that lead from a \<open>reset\<close> to the named states, each evaluated on the
  definitions of the model.
\<close>

lemma zero_in_elevators: "in_elevators 0"
  by (simp add: in_elevators_cases)

lemma run_pressed_once: "press_inside (reset initial_state) 0 2 = Ok pressed_once"
  by (simp add: press_inside_def Let_def NUM_FLOORS_def NUM_ELEVATORS_def reset_simps
        zero_in_elevators pressed_once_def push_higher_def)

lemma run_pressed_twice: "press_inside pressed_once 0 2 = Ok pressed_twice"
  by (simp add: press_inside_def Let_def NUM_FLOORS_def NUM_ELEVATORS_def reset_simps
        zero_in_elevators pressed_once_def pressed_twice_def push_higher_def)

lemma run_going_up: "move_step pressed_twice 0 = Some (Ok (False, going_up))"
  by (simp add: move_step_def neutral_search_eq zero_in_elevators reset_simps
        pressed_once_def pressed_twice_def going_up_def keep_moving_def)

lemma run_hall_call_1_down: "press_outside (reset initial_state) 1 down = Ok hall_call_1_down"
  by (simp add: press_outside_def NUM_FLOORS_def in_floors_def hall_call_1_down_def)

lemma run_retrieving_1: "move_step hall_call_1_down 0 = Some (Ok (False, retrieving_1))"
proof -
  have f: "directions hall_call_1_down 0 = neutral" "floors hall_call_1_down 0 = 0"
    "higher_floors_pressed hall_call_1_down 0 = []" "lower_floors_pressed hall_call_1_down 0 = []"
    "down_button hall_call_1_down 1" "\<not> up_button hall_call_1_down 1"
    by (simp_all add: hall_call_1_down_def reset_simps zero_in_elevators in_floors_cases)
  have "neutral_scan hall_call_1_down 0 0 1 = Ok (Some retrieving_1)"
    by (simp add: neutral_scan.simps [of _ _ _ 1] NUM_FLOORS_def in_floors_def retrieve_def
          retrieving_1_def f)
  then show ?thesis
    by (simp add: move_step_def neutral_search_eq zero_in_elevators keep_moving_def f)
qed

lemma run_pressed_while_retrieving:
  "press_inside retrieving_1 0 2 = Ok pressed_while_retrieving"
  by (simp add: press_inside_def Let_def NUM_FLOORS_def NUM_ELEVATORS_def reset_simps
        zero_in_elevators retrieving_1_def hall_call_1_down_def pressed_while_retrieving_def
        push_higher_def)

lemma reachable_going_up: "reachable going_up"
  using reach_reset run_pressed_once run_pressed_twice run_going_up
  by (blast intro: reach_press_inside reach_move_step)

lemma reachable_hall_call_1_down: "reachable hall_call_1_down"
  using reach_reset run_hall_call_1_down by (blast intro: reach_press_outside)

lemma reachable_retrieving_1: "reachable retrieving_1"
  using reachable_hall_call_1_down run_retrieving_1 by (blast intro: reach_move_step)



lemma run_hall_call_3_up: "press_outside (reset initial_state) 3 up = Ok hall_call_3_up"
  by (simp add: press_outside_def NUM_FLOORS_def in_floors_def hall_call_3_up_def)

lemma run_stopped_at_2: "move pressed_twice 0 = Some (Ok stopped_at_2)"
  by (simp add: move.simps move_step_def neutral_search_eq zero_in_elevators in_floors_cases
        reset_simps pressed_once_def pressed_twice_def stopped_at_2_def
        top_of_pq_equal_floor_def keep_moving_def move_up_one_floor_def NUM_FLOORS_def)

lemma run_opened_at_2: "open stopped_at_2 0 = Ok opened_at_2"
  by (simp add: open_def open_door_def close_door_def NUM_ELEVATORS_def Let_def
        pop_higher_at_def pop_lower_at_def unpress_for_direction_def unpress_external_button_def
        top_of_pq_equal_floor_def in_floors_cases pressed_once_def pressed_twice_def
        stopped_at_2_def opened_at_2_def reset_simps zero_in_elevators)

text \<open>
  Scenario A from a board on which the up button of floor 3 is set, as the scenario intends
  (no call of \<open>press_outside\<close> produces this board): \<open>move\<close> takes elevator 0 to
  floor 3 and stops there, already in direction \<open>up\<close> with the destination cleared;
  \<open>open\<close> clears the button; the next step returns to \<open>neutral\<close>, and from there,
  with nothing left to do, \<open>move\<close> does not return.
\<close>

lemma run_scenario_A_from_flag_3:
  "move flag_3_up 0 = Some (Ok arrived_at_3)
   \<and> floors arrived_at_3 0 = 3 \<and> directions arrived_at_3 0 = up
   \<and> destinations arrived_at_3 0 = - 1
   \<and> open arrived_at_3 0 = Ok opened_at_3 \<and> \<not> up_button opened_at_3 3
   \<and> move_step opened_at_3 0 = Some (Ok (False, idle_at_3))
   \<and> move opened_at_3 0 = None"
proof -
  have m: "move flag_3_up 0 = Some (Ok arrived_at_3)"
    by (simp add: move.simps move_step_def neutral_search_eq zero_in_elevators in_floors_cases
          reset_simps flag_3_up_def arrived_at_3_def top_of_pq_equal_floor_def keep_moving_def
          move_up_one_floor_def NUM_FLOORS_def neutral_scan.simps retrieve_def arrive_def)
  have f: "floors arrived_at_3 0 = 3" "directions arrived_at_3 0 = up"
    "destinations arrived_at_3 0 = - 1"
    by (simp_all add: arrived_at_3_def flag_3_up_def reset_simps zero_in_elevators)
  have o: "open arrived_at_3 0 = Ok opened_at_3"
    by (simp add: open_def open_door_def close_door_def NUM_ELEVATORS_def Let_def
        pop_higher_at_def pop_lower_at_def unpress_for_direction_def unpress_external_button_def
        top_of_pq_equal_floor_def in_floors_cases flag_3_up_def arrived_at_3_def
        opened_at_3_def reset_simps zero_in_elevators)
  have g: "floors opened_at_3 0 = 3" "directions opened_at_3 0 = up"
    "higher_floors_pressed opened_at_3 0 = []" "\<not> up_button opened_at_3 3"
    by (simp_all add: opened_at_3_def arrived_at_3_def flag_3_up_def reset_simps
          zero_in_elevators)
  have t: "move_step opened_at_3 0 = Some (Ok (False, idle_at_3))"
    by (simp add: move_step_def zero_in_elevators g in_floors_cases top_of_pq_equal_floor_def
          idle_at_3_def)
  have h: "floors idle_at_3 0 = 3" "directions idle_at_3 0 = neutral"
    "higher_floors_pressed idle_at_3 0 = []" "lower_floors_pressed idle_at_3 0 = []"
    by (simp_all add: idle_at_3_def opened_at_3_def arrived_at_3_def flag_3_up_def reset_simps
          zero_in_elevators)
  have "neutral_scan idle_at_3 0 3 1 = Ok None"
    by (simp add: neutral_scan.simps NUM_FLOORS_def in_floors_def idle_at_3_def opened_at_3_def
          arrived_at_3_def flag_3_up_def reset_simps)
  then have "move_step idle_at_3 0 = None"
    using h by (simp add: move_step_def zero_in_elevators neutral_search_eq)
  then have "move idle_at_3 0 = None"
    by (subst move.simps) simp
  moreover have "move opened_at_3 0 = move idle_at_3 0"
    using t by (subst move.simps) simp
  ultimately show ?thesis
    using m f o g t by simp
qed

section \<open>The outside buttons\<close>

text \<open>
  What \<open>press_outside\<close> does for a floor of the building: it throws, with the globals
  untouched, exactly for \<open>up\<close> at the top floor, \<open>down\<close> at the bottom floor and the
  five directions that have no button; otherwise it sets the up button of floor 0 or the
  down button of floor 1, whatever the floor.
\<close>

lemma press_outside_result:
  assumes "in_floors floor"
  shows "press_outside s floor dir =
     (if dir = up then
        if floor = NUM_FLOORS - 1
        then Throw (invalid_argument ''there is no up button on topmost floor'') s
        else Ok (s\<lparr>up_button := (up_button s)(0 := True)\<rparr>)
      else if dir = down then
        if floor = 0
        then Throw (invalid_argument ''there is no down button on floor 1'') s
        else Ok (s\<lparr>down_button := (down_button s)(1 := True)\<rparr>)
      else Throw (invalid_argument ''there is no button for the neutral and retrieval cases'') s)"
  using assms
  by (cases dir) (simp_all add: press_outside_def in_floors_def NUM_FLOORS_def)

text \<open>
  Claim C1 (\<open>press_outside\<close>, the spec's \<open>register_hall_call\<close>): a call with an
  in-range floor and a direction that has a button there succeeds and sets the flag of that
  direction at the given floor, leaving every other flag as it was.

  The source indexes the button arrays with the direction, \<open>up_button[dir]\<close> and
  \<open>down_button[dir]\<close>, not with the floor. The theorem evaluates the call
  \<open>press_outside(3, up)\<close> after a \<open>reset\<close>: it returns normally, the up flag of
  floor 3 is still clear, and the flag that is set is the one of floor 0 (the value of the
  enumerator \<open>up\<close>).
\<close>

theorem press_outside_up_marks_floor_0:
  "press_outside (reset initial_state) 3 up = Ok hall_call_3_up
   \<and> \<not> up_button hall_call_3_up 3
   \<and> up_button hall_call_3_up = (up_button (reset initial_state))(0 := True)
   \<and> down_button hall_call_3_up = down_button (reset initial_state)"
  using run_hall_call_3_up
  by (simp add: hall_call_3_up_def reset_simps in_floors_cases)

text \<open>
  Claim C2 (scenario A): after \<open>reset()\<close> and \<open>press_outside(3, up)\<close>, the scheduler
  run on elevator 0 enters \<open>retrieval_above_going_up\<close> with destination 3, climbs to
  floor 3 and stops there.

  In the source the call has set the up flag of floor 0 instead (see C1), which is the floor
  elevator 0 stands on; the scan of the \<open>neutral\<close> case looks only at the other floors,
  finds nothing, and the \<open>while (searching)\<close> loop never ends. The theorem evaluates the
  scenario: the first scheduler step, and so \<open>move\<close>, does not return.
\<close>

theorem scenario_A_never_returns:
  "press_outside (reset initial_state) 3 up = Ok hall_call_3_up
   \<and> directions hall_call_3_up 0 = neutral \<and> floors hall_call_3_up 0 = 0
   \<and> \<not> up_button hall_call_3_up 3
   \<and> move_step hall_call_3_up 0 = None \<and> move hall_call_3_up 0 = None"
proof -
  have f: "directions hall_call_3_up 0 = neutral" "floors hall_call_3_up 0 = 0"
    "\<not> up_button hall_call_3_up 3"
    "higher_floors_pressed hall_call_3_up 0 = []" "lower_floors_pressed hall_call_3_up 0 = []"
    by (simp_all add: hall_call_3_up_def reset_simps in_elevators_cases in_floors_cases)
  have "neutral_scan hall_call_3_up 0 0 1 = Ok None"
    by (simp add: neutral_scan.simps NUM_FLOORS_def in_floors_def hall_call_3_up_def reset_simps)
  then have "neutral_search hall_call_3_up 0 = None"
    using f by (simp add: neutral_search_eq)
  then have m: "move_step hall_call_3_up 0 = None"
    using f by (simp add: move_step_def in_elevators_cases)
  then have "move hall_call_3_up 0 = None"
    by (subst move.simps) simp
  with run_hall_call_3_up f m show ?thesis by blast
qed

section \<open>The inside buttons and the door cycle\<close>

text \<open>
  Claim C4 (\<open>press_inside\<close>, the spec's \<open>request_from_cabin\<close>): for every valid
  elevator and floor the call succeeds, and it routes the floor by the elevator's floor at
  the time of the call. A floor above is inserted into the ascending queue
  \<open>higher_floors_pressed\<close>, a floor below into the descending queue
  \<open>lower_floors_pressed\<close>. At the elevator's own floor, direction \<open>up\<close> or
  \<open>retrieval_above_going_up\<close> inserts it into the ascending queue, \<open>down\<close> or
  \<open>retrieval_below_going_down\<close> into the descending queue, and \<open>neutral\<close> sets the
  direction to \<open>up\<close> and inserts it into the ascending queue. Inserting is the ordered
  insertion of the list library (\<open>insort\<close>, by ascending floor or by descending floor),
  after which the floor is an entry of the queue. The other queue and the floor of the
  elevator stay as they are.
\<close>

theorem press_inside_routing:
  assumes "in_elevators e" and "in_floors f"
  shows "\<exists>s'. press_inside s e f = Ok s'
     \<and> floors s' = floors s
     \<and> (f > floors s e \<longrightarrow>
           higher_floors_pressed s' e = insort f (higher_floors_pressed s e)
         \<and> f \<in> set (higher_floors_pressed s' e)
         \<and> lower_floors_pressed s' e = lower_floors_pressed s e)
     \<and> (f < floors s e \<longrightarrow>
           lower_floors_pressed s' e = insort_key uminus f (lower_floors_pressed s e)
         \<and> f \<in> set (lower_floors_pressed s' e)
         \<and> higher_floors_pressed s' e = higher_floors_pressed s e)
     \<and> (f = floors s e \<and> (directions s e = up \<or> directions s e = retrieval_above_going_up) \<longrightarrow>
           higher_floors_pressed s' e = insort f (higher_floors_pressed s e)
         \<and> f \<in> set (higher_floors_pressed s' e)
         \<and> lower_floors_pressed s' e = lower_floors_pressed s e
         \<and> directions s' e = directions s e)
     \<and> (f = floors s e \<and> (directions s e = down \<or> directions s e = retrieval_below_going_down) \<longrightarrow>
           lower_floors_pressed s' e = insort_key uminus f (lower_floors_pressed s e)
         \<and> f \<in> set (lower_floors_pressed s' e)
         \<and> higher_floors_pressed s' e = higher_floors_pressed s e
         \<and> directions s' e = directions s e)
     \<and> (f = floors s e \<and> directions s e = neutral \<longrightarrow>
           directions s' e = up
         \<and> higher_floors_pressed s' e = insort f (higher_floors_pressed s e)
         \<and> f \<in> set (higher_floors_pressed s' e)
         \<and> lower_floors_pressed s' e = lower_floors_pressed s e)"
  using assms
  by (cases "directions s e")
     (simp_all add: press_inside_def in_elevators_def in_floors_def Let_def push_higher_def
        push_lower_def set_insort_key)

theorem press_inside_routing_witness:
  "in_elevators 0 \<and> in_floors 2 \<and> in_floors 1 \<and> in_floors 0
   \<and> (\<exists>s'. press_inside pressed_once 0 2 = Ok s'
          \<and> higher_floors_pressed s' 0 = [2, 2] \<and> lower_floors_pressed s' 0 = [])
   \<and> (\<exists>s'. press_inside stopped_at_2 0 1 = Ok s'
          \<and> lower_floors_pressed s' 0 = [1] \<and> higher_floors_pressed s' 0 = [2, 2])
   \<and> (\<exists>s'. press_inside (reset initial_state) 0 0 = Ok s'
          \<and> directions s' 0 = up \<and> higher_floors_pressed s' 0 = [0])"
proof -
  have f: "in_floors 2" "in_floors 1" "in_floors 0"
    by (simp_all add: in_floors_cases)
  have a: "floors pressed_once 0 = 0" "higher_floors_pressed pressed_once 0 = [2]"
    "lower_floors_pressed pressed_once 0 = []"
    by (simp_all add: pressed_once_def reset_simps zero_in_elevators)
  have b: "floors stopped_at_2 0 = 2" "higher_floors_pressed stopped_at_2 0 = [2, 2]"
    "lower_floors_pressed stopped_at_2 0 = []"
    by (simp_all add: stopped_at_2_def pressed_twice_def pressed_once_def reset_simps
          zero_in_elevators)
  have c: "floors (reset initial_state) 0 = 0" "directions (reset initial_state) 0 = neutral"
    "higher_floors_pressed (reset initial_state) 0 = []"
    by (simp_all add: reset_simps zero_in_elevators)
  have "\<exists>s'. press_inside pressed_once 0 2 = Ok s'
          \<and> higher_floors_pressed s' 0 = [2, 2] \<and> lower_floors_pressed s' 0 = []"
    using press_inside_routing [OF zero_in_elevators f(1), of pressed_once] a by auto
  moreover have "\<exists>s'. press_inside stopped_at_2 0 1 = Ok s'
          \<and> lower_floors_pressed s' 0 = [1] \<and> higher_floors_pressed s' 0 = [2, 2]"
    using press_inside_routing [OF zero_in_elevators f(2), of stopped_at_2] b by auto
  moreover have "\<exists>s'. press_inside (reset initial_state) 0 0 = Ok s'
          \<and> directions s' 0 = up \<and> higher_floors_pressed s' 0 = [0]"
    using press_inside_routing [OF zero_in_elevators f(3), of "reset initial_state"] c by auto
  ultimately show ?thesis
    using zero_in_elevators f by blast
qed




text \<open>
  Claim C9 as the spec states it: the cabin queues are ordered sets, so that pressing a floor
  that is already in its queue changes nothing and one \<open>open\<close> at the floor discharges
  the request. The queues of the source are \<open>std::priority_queue\<close>s, which keep
  duplicates. After a \<open>reset\<close>, pressing floor 2 twice in elevator 0 leaves two entries
  for floor 2; \<open>move\<close> stops at floor 2, and after one \<open>open\<close> an entry for floor 2
  is still queued.
\<close>

theorem cabin_queue_keeps_duplicates:
  "press_inside (reset initial_state) 0 2 = Ok pressed_once
   \<and> higher_floors_pressed pressed_once 0 = [2]
   \<and> press_inside pressed_once 0 2 = Ok pressed_twice
   \<and> higher_floors_pressed pressed_twice 0 = [2, 2]
   \<and> higher_floors_pressed pressed_twice 0 \<noteq> higher_floors_pressed pressed_once 0
   \<and> move pressed_twice 0 = Some (Ok stopped_at_2)
   \<and> floors stopped_at_2 0 = 2
   \<and> open stopped_at_2 0 = Ok opened_at_2
   \<and> higher_floors_pressed opened_at_2 0 = [2]"
  using run_pressed_once run_pressed_twice run_stopped_at_2 run_opened_at_2
  by (simp add: pressed_once_def pressed_twice_def stopped_at_2_def opened_at_2_def)

text \<open>
  Claim C9, amended: the cabin queues are ordered multisets. For every valid elevator and
  floor, \<open>press_inside\<close> succeeds and inserts exactly one further entry for the floor into
  the target queue, whether or not the floor is already there: into the ascending queue when
  the floor is above the elevator, or is the elevator's own floor and the direction is
  neither \<open>down\<close> nor \<open>retrieval_below_going_down\<close>, and into the descending queue
  otherwise. The entry is put at its place in the order of the queue (ascending floors in
  the one, descending floors in the other), so an ordered queue stays ordered, and the other
  queue is unchanged. One \<open>open\<close> outside \<open>neutral\<close> removes from each queue its head,
  one entry, when the head is the current floor, and nothing otherwise; further entries for
  the same floor stay queued.
\<close>

theorem cabin_queue_adds_one_entry:
  assumes "in_elevators e" and "in_floors f"
  shows "(\<exists>s'. press_inside s e f = Ok s'
           \<and> (if floors s e < f
                  \<or> f = floors s e \<and> directions s e \<noteq> down
                      \<and> directions s e \<noteq> retrieval_below_going_down
               then higher_floors_pressed s' e = insort f (higher_floors_pressed s e)
                  \<and> mset (higher_floors_pressed s' e) = add_mset f (mset (higher_floors_pressed s e))
                  \<and> lower_floors_pressed s' e = lower_floors_pressed s e
               else lower_floors_pressed s' e = insort_key uminus f (lower_floors_pressed s e)
                  \<and> mset (lower_floors_pressed s' e) = add_mset f (mset (lower_floors_pressed s e))
                  \<and> higher_floors_pressed s' e = higher_floors_pressed s e)
           \<and> (sorted (higher_floors_pressed s e) \<longrightarrow> sorted (higher_floors_pressed s' e))
           \<and> (sorted (map uminus (lower_floors_pressed s e))
                \<longrightarrow> sorted (map uminus (lower_floors_pressed s' e))))
       \<and> (directions s e \<noteq> neutral \<and> in_floors (floors s e) \<longrightarrow>
            (\<exists>s'. open s e = Ok s'
               \<and> higher_floors_pressed s' e =
                   (if higher_floors_pressed s e \<noteq> [] \<and> hd (higher_floors_pressed s e) = floors s e
                    then tl (higher_floors_pressed s e) else higher_floors_pressed s e)
               \<and> mset (higher_floors_pressed s' e) =
                   mset (higher_floors_pressed s e)
                   - (if higher_floors_pressed s e \<noteq> [] \<and> hd (higher_floors_pressed s e) = floors s e
                      then {#floors s e#} else {#})
               \<and> lower_floors_pressed s' e =
                   (if lower_floors_pressed s e \<noteq> [] \<and> hd (lower_floors_pressed s e) = floors s e
                    then tl (lower_floors_pressed s e) else lower_floors_pressed s e)
               \<and> mset (lower_floors_pressed s' e) =
                   mset (lower_floors_pressed s e)
                   - (if lower_floors_pressed s e \<noteq> [] \<and> hd (lower_floors_pressed s e) = floors s e
                      then {#floors s e#} else {#})))"
proof (intro conjI impI)
  show "\<exists>s'. press_inside s e f = Ok s'
           \<and> (if floors s e < f
                  \<or> f = floors s e \<and> directions s e \<noteq> down
                      \<and> directions s e \<noteq> retrieval_below_going_down
               then higher_floors_pressed s' e = insort f (higher_floors_pressed s e)
                  \<and> mset (higher_floors_pressed s' e) = add_mset f (mset (higher_floors_pressed s e))
                  \<and> lower_floors_pressed s' e = lower_floors_pressed s e
               else lower_floors_pressed s' e = insort_key uminus f (lower_floors_pressed s e)
                  \<and> mset (lower_floors_pressed s' e) = add_mset f (mset (lower_floors_pressed s e))
                  \<and> higher_floors_pressed s' e = higher_floors_pressed s e)
           \<and> (sorted (higher_floors_pressed s e) \<longrightarrow> sorted (higher_floors_pressed s' e))
           \<and> (sorted (map uminus (lower_floors_pressed s e))
                \<longrightarrow> sorted (map uminus (lower_floors_pressed s' e)))"
    using assms
    by (cases "directions s e")
       (simp_all add: press_inside_def in_elevators_def in_floors_def Let_def
          push_higher_def push_lower_def sorted_insort sorted_insort_key)
next
  assume a: "directions s e \<noteq> neutral \<and> in_floors (floors s e)"
  have tl: "xs \<noteq> [] \<Longrightarrow> mset (tl xs) = mset xs - {#hd xs#}" for xs :: "int list"
    by (cases xs) simp_all
  from a assms(1) show "\<exists>s'. open s e = Ok s'
               \<and> higher_floors_pressed s' e =
                   (if higher_floors_pressed s e \<noteq> [] \<and> hd (higher_floors_pressed s e) = floors s e
                    then tl (higher_floors_pressed s e) else higher_floors_pressed s e)
               \<and> mset (higher_floors_pressed s' e) =
                   mset (higher_floors_pressed s e)
                   - (if higher_floors_pressed s e \<noteq> [] \<and> hd (higher_floors_pressed s e) = floors s e
                      then {#floors s e#} else {#})
               \<and> lower_floors_pressed s' e =
                   (if lower_floors_pressed s e \<noteq> [] \<and> hd (lower_floors_pressed s e) = floors s e
                    then tl (lower_floors_pressed s e) else lower_floors_pressed s e)
               \<and> mset (lower_floors_pressed s' e) =
                   mset (lower_floors_pressed s e)
                   - (if lower_floors_pressed s e \<noteq> [] \<and> hd (lower_floors_pressed s e) = floors s e
                      then {#floors s e#} else {#})"
    by (cases "directions s e")
       (auto simp: open_def open_door_def close_door_def in_elevators_def Let_def
        pop_higher_at_def pop_lower_at_def unpress_for_direction_def unpress_external_button_def
        top_of_pq_equal_floor_def tl)
qed

theorem cabin_queue_adds_one_entry_witness:
  "in_elevators 0 \<and> in_floors 2
   \<and> higher_floors_pressed pressed_once 0 = [2]
   \<and> (\<exists>s'. press_inside pressed_once 0 2 = Ok s'
          \<and> higher_floors_pressed s' 0 = [2, 2] \<and> lower_floors_pressed s' 0 = [])
   \<and> directions stopped_at_2 0 \<noteq> neutral \<and> in_floors (floors stopped_at_2 0)
   \<and> higher_floors_pressed stopped_at_2 0 = [2, 2]
   \<and> (\<exists>s'. open stopped_at_2 0 = Ok s' \<and> higher_floors_pressed s' 0 = [2])"
proof -
  have f: "in_floors 2"
    by (simp add: in_floors_cases)
  have a: "floors pressed_once 0 = 0" "higher_floors_pressed pressed_once 0 = [2]"
    "lower_floors_pressed pressed_once 0 = []"
    by (simp_all add: pressed_once_def reset_simps zero_in_elevators)
  have b: "floors stopped_at_2 0 = 2" "higher_floors_pressed stopped_at_2 0 = [2, 2]"
    "directions stopped_at_2 0 = up"
    by (simp_all add: stopped_at_2_def pressed_twice_def pressed_once_def reset_simps
          zero_in_elevators)
  note t1 = cabin_queue_adds_one_entry [OF zero_in_elevators f, of pressed_once]
  note t2 = cabin_queue_adds_one_entry [OF zero_in_elevators f, of stopped_at_2]
  have "\<exists>s'. press_inside pressed_once 0 2 = Ok s'
          \<and> higher_floors_pressed s' 0 = [2, 2] \<and> lower_floors_pressed s' 0 = []"
    using t1 [THEN conjunct1] a by auto
  moreover have "\<exists>s'. open stopped_at_2 0 = Ok s' \<and> higher_floors_pressed s' 0 = [2]"
    using t2 [THEN conjunct2] b f by auto
  ultimately show ?thesis
    using zero_in_elevators f a b by simp
qed

section \<open>The search of the neutral case\<close>

text \<open>
  The \<open>for\<close> loop, started at offset \<open>i\<close> from a floor of the building, returns
  the first floor with a pressed button in the order of the specification, from that offset
  on, and never reads outside the button arrays.
\<close>

lemma neutral_scan_find:
  assumes "in_floors floor" and "1 \<le> i"
  shows "neutral_scan s e floor i =
     Ok (map_option (\<lambda>c. retrieve s e (spec_retrieval_mode s floor c) c)
          (find (spec_hall_call_at s) (concat (map (\<lambda>i. [floor + i, floor - i]) [i .. NUM_FLOORS - 1]))))"
  using assms
proof (induction s e floor i rule: neutral_scan.induct)
  case (1 s e floor i)
  show ?case
  proof (cases "i < NUM_FLOORS")
    case False
    then show ?thesis
      by (subst neutral_scan.simps) simp
  next
    case True
    then have u: "[i .. NUM_FLOORS - 1] = i # [i + 1 .. NUM_FLOORS - 1]"
      by (simp add: upto_rec1)
    have a: "spec_hall_call_at s (floor + i)
        \<longleftrightarrow> floor + i < NUM_FLOORS \<and> (up_button s (floor + i) \<or> down_button s (floor + i))"
      using "1.prems" by (auto simp: spec_hall_call_at_def in_floors_def)
    have b: "spec_hall_call_at s (floor - i)
        \<longleftrightarrow> floor - i \<ge> 0 \<and> (up_button s (floor - i) \<or> down_button s (floor - i))"
      using "1.prems" by (auto simp: spec_hall_call_at_def in_floors_def)
    have ia: "floor + i < NUM_FLOORS \<Longrightarrow> in_floors (floor + i)"
      and ib: "floor - i \<ge> 0 \<Longrightarrow> in_floors (floor - i)"
      using "1.prems" by (auto simp: in_floors_def)
    show ?thesis
    proof (cases "spec_hall_call_at s (floor + i)")
      case True
      with \<open>i < NUM_FLOORS\<close> "1.prems" show ?thesis
        by (subst neutral_scan.simps) (auto simp: u a ia spec_retrieval_mode_def)
    next
      case fa: False
      show ?thesis
      proof (cases "spec_hall_call_at s (floor - i)")
        case True
        with fa \<open>i < NUM_FLOORS\<close> "1.prems" show ?thesis
          by (subst neutral_scan.simps) (auto simp: u a b ia ib spec_retrieval_mode_def)
      next
        case fb: False
        have "neutral_scan s e floor i = neutral_scan s e floor (i + 1)"
          using fa fb \<open>i < NUM_FLOORS\<close> ia ib
          by (subst neutral_scan.simps) (auto simp: a b)
        also have "\<dots> = Ok (map_option (\<lambda>c. retrieve s e (spec_retrieval_mode s floor c) c)
          (find (spec_hall_call_at s)
             (concat (map (\<lambda>i. [floor + i, floor - i]) [i + 1 .. NUM_FLOORS - 1]))))"
          using fa fb \<open>i < NUM_FLOORS\<close> ia ib "1.prems"
          by (intro "1.IH") (auto simp: a b)
        finally show ?thesis
          using fa fb by (simp add: u)
      qed
    qed
  qed
qed


lemma neutral_search_spec:
  assumes "in_floors (floors s e)"
  shows "neutral_search s e = map_option Ok (spec_neutral_policy s e)"
proof (cases "higher_floors_pressed s e \<noteq> [] \<or> lower_floors_pressed s e \<noteq> []")
  case True
  then show ?thesis
    by (simp add: neutral_search_eq spec_neutral_policy_def)
next
  case False
  have "neutral_scan s e (floors s e) 1 =
      Ok (map_option (\<lambda>c. retrieve s e (spec_retrieval_mode s (floors s e) c) c)
           (find (spec_hall_call_at s) (spec_scan_order (floors s e))))"
    unfolding spec_scan_order_def using assms by (intro neutral_scan_find) simp_all
  with False show ?thesis
    by (simp add: neutral_search_eq spec_neutral_policy_def retrieve_def split: option.splits)
qed



section \<open>The invariant holds in every reachable state\<close>

text \<open>
  The invariant of an elevator speaks about its own five entries only, so a call that leaves
  them alone preserves it.
\<close>

lemma elevator_inv_cong:
  assumes "floors s' e = floors s e" "directions s' e = directions s e"
    "destinations s' e = destinations s e"
    "higher_floors_pressed s' e = higher_floors_pressed s e"
    "lower_floors_pressed s' e = lower_floors_pressed s e"
  shows "elevator_inv s' e = elevator_inv s e"
  using assms by (simp add: elevator_inv_def)

lemma inv_reset: "in_elevators e \<Longrightarrow> elevator_inv (reset s) e"
  by (simp add: elevator_inv_def reset_simps in_floors_cases)

lemma press_outside_frame:
  assumes "press_outside s f d = Ok s' \<or> press_outside s f d = Throw x s'"
  shows "floors s' = floors s \<and> directions s' = directions s \<and> destinations s' = destinations s
       \<and> higher_floors_pressed s' = higher_floors_pressed s
       \<and> lower_floors_pressed s' = lower_floors_pressed s"
  using assms by (cases d) (auto simp: press_outside_def split: if_splits)

lemma inv_press_outside:
  assumes "press_outside s f d = Ok s' \<or> press_outside s f d = Throw x s'"
  shows "elevator_inv s' e = elevator_inv s e"
  using press_outside_frame [OF assms] by (intro elevator_inv_cong) simp_all

lemma press_inside_other:
  assumes "press_inside s e f = Ok s'" and "e' \<noteq> e"
  shows "floors s' e' = floors s e' \<and> directions s' e' = directions s e'
       \<and> destinations s' e' = destinations s e'
       \<and> higher_floors_pressed s' e' = higher_floors_pressed s e'
       \<and> lower_floors_pressed s' e' = lower_floors_pressed s e'"
  using assms
  by (cases "directions s e") (auto simp: press_inside_def Let_def split: if_splits)

lemma press_inside_frame:
  assumes "press_inside s e f = Ok s'"
  shows "floors s' = floors s \<and> destinations s' = destinations s
       \<and> up_button s' = up_button s \<and> down_button s' = down_button s"
  using assms
  by (cases "directions s e") (auto simp: press_inside_def Let_def split: if_splits)

lemma inv_press_inside_same:
  assumes "press_inside s e f = Ok s'" and "elevator_inv s e"
  shows "elevator_inv s' e"
  using assms
  by (cases "directions s e")
     (auto simp: press_inside_def Let_def elevator_inv_def push_higher_def push_lower_def
        sorted_insort sorted_insort_key set_insort_key in_floors_def
        split: if_splits)

lemma inv_press_inside:
  assumes "press_inside s e f = Ok s'" and "elevator_inv s e'"
  shows "elevator_inv s' e'"
proof (cases "e' = e")
  case True
  with assms show ?thesis by (simp add: inv_press_inside_same)
next
  case False
  from press_inside_other [OF assms(1) False] assms(2) show ?thesis
    by (simp add: elevator_inv_cong [of s' e' s])
qed



lemma open_other:
  assumes "open s e = Ok s' \<or> open s e = Throw x s'" and "e' \<noteq> e"
  shows "floors s' e' = floors s e' \<and> directions s' e' = directions s e'
       \<and> destinations s' e' = destinations s e'
       \<and> higher_floors_pressed s' e' = higher_floors_pressed s e'
       \<and> lower_floors_pressed s' e' = lower_floors_pressed s e'"
  using assms
  by (cases "directions s e")
     (auto simp: open_def open_door_def close_door_def Let_def pop_higher_at_def pop_lower_at_def
        unpress_for_direction_def unpress_external_button_def split: if_splits)

lemma open_same:
  assumes "open s e = Ok s' \<or> open s e = Throw x s'"
  shows "floors s' = floors s \<and> directions s' = directions s \<and> destinations s' = destinations s
       \<and> higher_floors_pressed s' e =
           (if top_of_pq_equal_floor (higher_floors_pressed s e) (floors s e)
            then tl (higher_floors_pressed s e) else higher_floors_pressed s e)
       \<and> lower_floors_pressed s' e =
           (if top_of_pq_equal_floor (lower_floors_pressed s e) (floors s e)
            then tl (lower_floors_pressed s e) else lower_floors_pressed s e)"
  using assms
  by (cases "directions s e")
     (auto simp: open_def open_door_def close_door_def Let_def pop_higher_at_def pop_lower_at_def
        unpress_for_direction_def unpress_external_button_def split: if_splits)

lemma popped_queue:
  fixes xs :: "int list"
  assumes "ys = (if c then tl xs else xs)"
  shows "set ys \<subseteq> set xs" and "sorted xs \<Longrightarrow> sorted ys"
    and "sorted (map uminus xs) \<Longrightarrow> sorted (map uminus ys)" and "xs = [] \<Longrightarrow> ys = []"
  using assms by (cases xs; cases c; auto)+

lemma inv_open:
  assumes "open s e = Ok s' \<or> open s e = Throw x s'" and "elevator_inv s e'"
  shows "elevator_inv s' e'"
proof (cases "e' = e")
  case False
  from open_other [OF assms(1) False] assms(2) show ?thesis
    by (simp add: elevator_inv_cong [of s' e' s])
next
  case True
  from assms(2) True have i: "elevator_inv s e" by simp
  from open_same [OF assms(1)]
  have f: "floors s' e = floors s e" "directions s' e = directions s e"
    "destinations s' e = destinations s e"
    and h: "higher_floors_pressed s' e =
           (if top_of_pq_equal_floor (higher_floors_pressed s e) (floors s e)
            then tl (higher_floors_pressed s e) else higher_floors_pressed s e)"
    and l: "lower_floors_pressed s' e =
           (if top_of_pq_equal_floor (lower_floors_pressed s e) (floors s e)
            then tl (lower_floors_pressed s e) else lower_floors_pressed s e)"
    by simp_all
  note ph = popped_queue [OF h] and pl = popped_queue [OF l]
  have "sorted (higher_floors_pressed s' e)" "sorted (map uminus (lower_floors_pressed s' e))"
    using i ph(2) pl(3) by (simp_all add: elevator_inv_def)
  moreover have "\<forall>x \<in> set (higher_floors_pressed s' e). floors s e \<le> x \<and> x < NUM_FLOORS"
    using i ph(1) unfolding elevator_inv_def by blast
  moreover have "\<forall>x \<in> set (lower_floors_pressed s' e). 0 \<le> x \<and> x \<le> floors s e"
    using i pl(1) unfolding elevator_inv_def by blast
  moreover have "higher_floors_pressed s e = [] \<and> lower_floors_pressed s e = []
      \<longrightarrow> higher_floors_pressed s' e = [] \<and> lower_floors_pressed s' e = []"
    using ph(4) pl(4) by simp
  ultimately show ?thesis
    using i unfolding True elevator_inv_def f by blast
qed

text \<open>
  Under the invariant a scheduler step never fails, and its result can be written down
  direction by direction. While a queue is non-empty and its head is not the current floor,
  all its entries lie strictly beyond the current floor, so there is a floor to move to.
\<close>

lemma inv_floor: "elevator_inv s e \<Longrightarrow> in_floors (floors s e)"
  by (simp add: elevator_inv_def)

lemma higher_above:
  assumes "elevator_inv s e" and "higher_floors_pressed s e \<noteq> []"
    and "\<not> top_of_pq_equal_floor (higher_floors_pressed s e) (floors s e)"
  shows "floors s e < NUM_FLOORS - 1" and "\<forall>x \<in> set (higher_floors_pressed s e). floors s e + 1 \<le> x"
proof -
  obtain a t where h: "higher_floors_pressed s e = a # t"
    using assms(2) by (cases "higher_floors_pressed s e") auto
  have a: "floors s e < a" "a < NUM_FLOORS" "\<forall>x \<in> set t. a \<le> x"
    using assms(1,3) by (auto simp: elevator_inv_def h top_of_pq_equal_floor_def)
  then show "floors s e < NUM_FLOORS - 1" by simp
  show "\<forall>x \<in> set (higher_floors_pressed s e). floors s e + 1 \<le> x"
    using a by (auto simp: h)
qed

lemma lower_below:
  assumes "elevator_inv s e" and "lower_floors_pressed s e \<noteq> []"
    and "\<not> top_of_pq_equal_floor (lower_floors_pressed s e) (floors s e)"
  shows "0 < floors s e" and "\<forall>x \<in> set (lower_floors_pressed s e). x \<le> floors s e - 1"
proof -
  obtain a t where h: "lower_floors_pressed s e = a # t"
    using assms(2) by (cases "lower_floors_pressed s e") auto
  have a: "a < floors s e" "0 \<le> a" "\<forall>x \<in> set t. x \<le> a"
    using assms(1,3) by (auto simp: elevator_inv_def h top_of_pq_equal_floor_def)
  then show "0 < floors s e" by simp
  show "\<forall>x \<in> set (lower_floors_pressed s e). x \<le> floors s e - 1"
    using a by (auto simp: h)
qed

lemma step_up:
  assumes "in_elevators e" and "elevator_inv s e" and "directions s e = up"
  shows "move_step s e =
     Some (Ok (if up_button s (floors s e)
                  \<or> top_of_pq_equal_floor (higher_floors_pressed s e) (floors s e)
               then (True, s)
               else if higher_floors_pressed s e = []
               then (False, s\<lparr>directions := (directions s)(e := neutral)\<rparr>)
               else (False, s\<lparr>floors := (floors s)(e := floors s e + 1)\<rparr>)))"
  using assms inv_floor [OF assms(2)] higher_above(1) [OF assms(2)]
  by (simp add: move_step_def keep_moving_def move_up_one_floor_def)

lemma step_down:
  assumes "in_elevators e" and "elevator_inv s e" and "directions s e = down"
  shows "move_step s e =
     Some (Ok (if down_button s (floors s e)
                  \<or> top_of_pq_equal_floor (lower_floors_pressed s e) (floors s e)
               then (True, s)
               else if lower_floors_pressed s e = []
               then (False, s\<lparr>directions := (directions s)(e := neutral)\<rparr>)
               else (False, s\<lparr>floors := (floors s)(e := floors s e - 1)\<rparr>)))"
  using assms inv_floor [OF assms(2)] lower_below(1) [OF assms(2)]
  by (simp add: move_step_def keep_moving_def move_down_one_floor_def)

lemma step_retrieval_above_going_up:
  assumes "in_elevators e" and "elevator_inv s e" and "directions s e = retrieval_above_going_up"
  shows "move_step s e =
     Some (Ok (if up_button s (floors s e) \<or> destinations s e = floors s e
                  \<or> top_of_pq_equal_floor (higher_floors_pressed s e) (floors s e)
               then (True, if destinations s e = floors s e then arrive s e up else s)
               else if \<not> up_button s (destinations s e) then (False, abandon s e)
               else (False, s\<lparr>floors := (floors s)(e := floors s e + 1)\<rparr>)))"
  using assms
  by (auto simp: move_step_def keep_moving_def move_up_one_floor_def elevator_inv_def
        in_floors_def)

lemma step_retrieval_below_going_down:
  assumes "in_elevators e" and "elevator_inv s e" and "directions s e = retrieval_below_going_down"
  shows "move_step s e =
     Some (Ok (if down_button s (floors s e) \<or> destinations s e = floors s e
                  \<or> top_of_pq_equal_floor (lower_floors_pressed s e) (floors s e)
               then (True, if destinations s e = floors s e then arrive s e down else s)
               else if \<not> down_button s (destinations s e) then (False, abandon s e)
               else (False, s\<lparr>floors := (floors s)(e := floors s e - 1)\<rparr>)))"
  using assms
  by (auto simp: move_step_def keep_moving_def move_down_one_floor_def elevator_inv_def
        in_floors_def)

lemma step_retrieval_below_going_up:
  assumes "in_elevators e" and "elevator_inv s e" and "directions s e = retrieval_below_going_up"
  shows "move_step s e =
     Some (Ok (if \<not> up_button s (destinations s e) then (False, abandon s e)
               else if destinations s e = floors s e then (True, arrive s e up)
               else (False, s\<lparr>floors := (floors s)(e := floors s e - 1)\<rparr>)))"
  using assms
  by (auto simp: move_step_def keep_moving_def move_down_one_floor_def elevator_inv_def
        in_floors_def)

lemma step_retrieval_above_going_down:
  assumes "in_elevators e" and "elevator_inv s e" and "directions s e = retrieval_above_going_down"
  shows "move_step s e =
     Some (Ok (if \<not> down_button s (destinations s e) then (False, abandon s e)
               else if destinations s e = floors s e then (True, arrive s e down)
               else (False, s\<lparr>floors := (floors s)(e := floors s e + 1)\<rparr>)))"
  using assms
  by (auto simp: move_step_def keep_moving_def move_up_one_floor_def elevator_inv_def
        in_floors_def)

lemma step_neutral:
  assumes "in_elevators e" and "elevator_inv s e" and "directions s e = neutral"
  shows "move_step s e = map_option (\<lambda>s'. Ok (False, s')) (spec_neutral_policy s e)"
  using assms inv_floor [OF assms(2)]
  by (simp add: move_step_def neutral_search_spec keep_moving_def option.map_comp comp_def)

lemma move_step_valid: "move_step s e = Some (Ok r) \<Longrightarrow> in_elevators e"
  by (cases "in_elevators e") (simp_all add: move_step_def)

lemma spec_neutral_policy_cases:
  assumes "spec_neutral_policy s e = Some s'"
  obtains (queues) "higher_floors_pressed s e \<noteq> [] \<or> lower_floors_pressed s e \<noteq> []"
      "s' = s\<lparr>directions := (directions s)
                (e := (if length (higher_floors_pressed s e) > length (lower_floors_pressed s e)
                       then up else down))\<rparr>"
  | (hall) c where "higher_floors_pressed s e = []" "lower_floors_pressed s e = []"
      "in_floors c" "up_button s c \<or> down_button s c"
      "s' = s\<lparr>directions := (directions s)(e := spec_retrieval_mode s (floors s e) c),
              destinations := (destinations s)(e := c)\<rparr>"
proof (cases "higher_floors_pressed s e \<noteq> [] \<or> lower_floors_pressed s e \<noteq> []")
  case True
  with assms show ?thesis
    by (intro queues) (auto simp: spec_neutral_policy_def)
next
  case False
  with assms obtain c where c: "find (spec_hall_call_at s) (spec_scan_order (floors s e)) = Some c"
    and s': "s' = s\<lparr>directions := (directions s)(e := spec_retrieval_mode s (floors s e) c),
              destinations := (destinations s)(e := c)\<rparr>"
    by (auto simp: spec_neutral_policy_def split: option.splits)
  from c have "spec_hall_call_at s c"
    by (auto simp: find_Some_iff)
  with False s' show ?thesis
    by (intro hall [of c]) (auto simp: spec_hall_call_at_def)
qed

lemma move_step_frame:
  assumes "move_step s e = Some (Ok (b, s'))" and "elevator_inv s e"
  shows "up_button s' = up_button s \<and> down_button s' = down_button s
       \<and> higher_floors_pressed s' = higher_floors_pressed s
       \<and> lower_floors_pressed s' = lower_floors_pressed s"
proof (cases "directions s e")
  case neutral
  with assms move_step_valid [OF assms(1)] obtain t where
    "spec_neutral_policy s e = Some t" "s' = t"
    by (auto simp: step_neutral)
  then show ?thesis
    by (cases rule: spec_neutral_policy_cases) auto
qed (use assms move_step_valid [OF assms(1)] in
      \<open>auto simp: step_up step_down step_retrieval_above_going_up step_retrieval_below_going_up
         step_retrieval_above_going_down step_retrieval_below_going_down arrive_def abandon_def
         split: if_splits\<close>)

lemma move_step_other:
  assumes "move_step s e = Some (Ok (b, s'))" and "elevator_inv s e" and "e' \<noteq> e"
  shows "floors s' e' = floors s e' \<and> directions s' e' = directions s e'
       \<and> destinations s' e' = destinations s e'"
proof (cases "directions s e")
  case neutral
  with assms move_step_valid [OF assms(1)] obtain t where
    "spec_neutral_policy s e = Some t" "s' = t"
    by (auto simp: step_neutral)
  then show ?thesis
    using assms(3) by (cases rule: spec_neutral_policy_cases) auto
qed (use assms move_step_valid [OF assms(1)] in
      \<open>auto simp: step_up step_down step_retrieval_above_going_up step_retrieval_below_going_up
         step_retrieval_above_going_down step_retrieval_below_going_down arrive_def abandon_def
         split: if_splits\<close>)


lemma inv_moved_up:
  assumes "elevator_inv s e" and "floors s e < NUM_FLOORS - 1"
    and "\<forall>x \<in> set (higher_floors_pressed s e). floors s e + 1 \<le> x"
    and "directions s e = retrieval_above_going_up \<or> directions s e = retrieval_above_going_down
         \<longrightarrow> destinations s e \<noteq> floors s e"
    and "directions s e \<noteq> retrieval_below_going_up"
    and "directions s e \<noteq> retrieval_below_going_down"
  shows "elevator_inv (s\<lparr>floors := (floors s)(e := floors s e + 1)\<rparr>) e"
  using assms by (auto simp: elevator_inv_def in_floors_def)

lemma inv_moved_down:
  assumes "elevator_inv s e" and "0 < floors s e"
    and "\<forall>x \<in> set (lower_floors_pressed s e). x \<le> floors s e - 1"
    and "directions s e = retrieval_below_going_up \<or> directions s e = retrieval_below_going_down
         \<longrightarrow> destinations s e \<noteq> floors s e"
    and "directions s e \<noteq> retrieval_above_going_up"
    and "directions s e \<noteq> retrieval_above_going_down"
  shows "elevator_inv (s\<lparr>floors := (floors s)(e := floors s e - 1)\<rparr>) e"
  using assms by (auto simp: elevator_inv_def in_floors_def)

lemma inv_redirected:
  assumes "elevator_inv s e"
    and "d = up \<or> d = down \<or> d = neutral"
  shows "elevator_inv (s\<lparr>directions := (directions s)(e := d)\<rparr>) e"
    and "elevator_inv (arrive s e d) e"
    and "elevator_inv (abandon s e) e"
  using assms by (auto simp: elevator_inv_def arrive_def abandon_def)

lemma inv_retrieve:
  assumes "elevator_inv s e" and "in_floors c"
    and "higher_floors_pressed s e = []" and "lower_floors_pressed s e = []"
  shows "elevator_inv (s\<lparr>directions := (directions s)(e := spec_retrieval_mode s (floors s e) c),
              destinations := (destinations s)(e := c)\<rparr>) e"
  using assms by (auto simp: elevator_inv_def spec_retrieval_mode_def in_floors_def)

lemma higher_above_all:
  assumes "elevator_inv s e"
    and "\<not> top_of_pq_equal_floor (higher_floors_pressed s e) (floors s e)"
  shows "\<forall>x \<in> set (higher_floors_pressed s e). floors s e + 1 \<le> x"
  using higher_above(2) [OF assms(1) _ assms(2)]
  by (cases "higher_floors_pressed s e = []") simp_all

lemma lower_below_all:
  assumes "elevator_inv s e"
    and "\<not> top_of_pq_equal_floor (lower_floors_pressed s e) (floors s e)"
  shows "\<forall>x \<in> set (lower_floors_pressed s e). x \<le> floors s e - 1"
  using lower_below(2) [OF assms(1) _ assms(2)]
  by (cases "lower_floors_pressed s e = []") simp_all

lemma retrieval_above_room:
  assumes "elevator_inv s e"
    and "directions s e = retrieval_above_going_up \<or> directions s e = retrieval_above_going_down"
    and "destinations s e \<noteq> floors s e"
  shows "floors s e < NUM_FLOORS - 1"
  using assms by (auto simp: elevator_inv_def)

lemma retrieval_below_room:
  assumes "elevator_inv s e"
    and "directions s e = retrieval_below_going_up \<or> directions s e = retrieval_below_going_down"
    and "destinations s e \<noteq> floors s e"
  shows "0 < floors s e"
  using assms by (auto simp: elevator_inv_def)

lemma retrieval_queues_empty:
  assumes "elevator_inv s e"
    and "directions s e = retrieval_above_going_down \<or> directions s e = retrieval_below_going_up"
  shows "higher_floors_pressed s e = []" and "lower_floors_pressed s e = []"
  using assms by (auto simp: elevator_inv_def)

lemma inv_move_step_same:
  assumes "move_step s e = Some (Ok (b, s'))" and "elevator_inv s e"
  shows "elevator_inv s' e"
proof -
  note v = move_step_valid [OF assms(1)]
  note i = assms(2)
  show ?thesis
  proof (cases "directions s e")
    case up
    from assms(1) show ?thesis
      unfolding step_up [OF v i up]
      using i up higher_above [OF i]
      by (auto split: if_splits intro!: inv_moved_up inv_redirected(1))
  next
    case down
    from assms(1) show ?thesis
      unfolding step_down [OF v i down]
      using i down lower_below [OF i]
      by (auto split: if_splits intro!: inv_moved_down inv_redirected(1))
  next
    case neutral
    with assms v obtain t where "spec_neutral_policy s e = Some t" "s' = t"
      by (auto simp: step_neutral)
    then show ?thesis
      using i by (cases rule: spec_neutral_policy_cases) (auto intro!: inv_retrieve inv_redirected(1))
  next
    case d: retrieval_above_going_up
    from assms(1) show ?thesis
      unfolding step_retrieval_above_going_up [OF v i d]
      using i d higher_above_all [OF i] retrieval_above_room [OF i]
      by (auto split: if_splits intro!: inv_moved_up inv_redirected)
  next
    case d: retrieval_above_going_down
    from assms(1) show ?thesis
      unfolding step_retrieval_above_going_down [OF v i d]
      using i d retrieval_queues_empty [OF i] retrieval_above_room [OF i]
      by (auto split: if_splits intro!: inv_moved_up inv_redirected)
  next
    case d: retrieval_below_going_up
    from assms(1) show ?thesis
      unfolding step_retrieval_below_going_up [OF v i d]
      using i d retrieval_queues_empty [OF i] retrieval_below_room [OF i]
      by (auto split: if_splits intro!: inv_moved_down inv_redirected)
  next
    case d: retrieval_below_going_down
    from assms(1) show ?thesis
      unfolding step_retrieval_below_going_down [OF v i d]
      using i d lower_below_all [OF i] retrieval_below_room [OF i]
      by (auto split: if_splits intro!: inv_moved_down inv_redirected)
  qed
qed

lemma inv_move_step:
  assumes "move_step s e = Some (Ok (b, s'))" and "elevator_inv s e" and "elevator_inv s e'"
  shows "elevator_inv s' e'"
proof (cases "e' = e")
  case True
  with assms show ?thesis by (simp add: inv_move_step_same)
next
  case False
  from move_step_other [OF assms(1,2) False] move_step_frame [OF assms(1,2)] assms(3)
  show ?thesis
    by (simp add: elevator_inv_cong [of s' e' s])
qed

lemma reachable_inv:
  assumes "reachable s" and "in_elevators e"
  shows "elevator_inv s e"
  using assms
proof (induction arbitrary: e rule: reachable.induct)
  case (reach_reset s)
  then show ?case by (simp add: inv_reset)
next
  case (reach_press_outside s floor dir s')
  then show ?case by (simp add: inv_press_outside [of s floor dir s'])
next
  case (reach_press_outside_throw s floor dir x s')
  then show ?case by (simp add: inv_press_outside [of s floor dir s' x])
next
  case (reach_press_inside s elevator floor s')
  then show ?case by (simp add: inv_press_inside)
next
  case (reach_open s elevator s')
  then show ?case by (simp add: inv_open [of s elevator s'])
next
  case (reach_open_throw s elevator x s')
  then show ?case by (simp add: inv_open [of s elevator s' x])
next
  case (reach_move_step s elevator should_open_now s')
  from reach_move_step.hyps(2) have "in_elevators elevator"
    by (rule move_step_valid)
  with reach_move_step show ?case
    by (blast intro: inv_move_step)
qed

section \<open>Progress of the scheduling loop\<close>











section \<open>Steps of a reachable elevator\<close>

lemma move_step_no_failure:
  assumes "in_elevators e" and "elevator_inv s e"
  shows "move_step s e = None \<or> (\<exists>b s'. move_step s e = Some (Ok (b, s')))"
proof (cases "directions s e")
  case d: neutral
  show ?thesis
    by (cases "spec_neutral_policy s e") (auto simp: step_neutral [OF assms d])
qed (simp_all add: step_up step_down step_retrieval_above_going_up step_retrieval_below_going_up
      step_retrieval_above_going_down step_retrieval_below_going_down assms)

lemma move_step_floor:
  assumes "move_step s e = Some (Ok (b, s'))" and "elevator_inv s e"
  shows "floors s' = floors s
       \<or> floors s e < NUM_FLOORS - 1 \<and> floors s' = (floors s)(e := floors s e + 1)
       \<or> 0 < floors s e \<and> floors s' = (floors s)(e := floors s e - 1)"
proof -
  note v = move_step_valid [OF assms(1)]
  note i = assms(2)
  show ?thesis
  proof (cases "directions s e")
    case d: up
    from assms(1) higher_above(1) [OF i] show ?thesis
      unfolding step_up [OF v i d] by (auto split: if_splits)
  next
    case d: down
    from assms(1) lower_below(1) [OF i] show ?thesis
      unfolding step_down [OF v i d] by (auto split: if_splits)
  next
    case d: neutral
    with assms v obtain t where "spec_neutral_policy s e = Some t" "s' = t"
      by (auto simp: step_neutral)
    then show ?thesis
      by (cases rule: spec_neutral_policy_cases) auto
  next
    case d: retrieval_above_going_up
    from assms(1) retrieval_above_room [OF i] d show ?thesis
      unfolding step_retrieval_above_going_up [OF v i d]
      by (auto split: if_splits simp: arrive_def abandon_def)
  next
    case d: retrieval_above_going_down
    from assms(1) retrieval_above_room [OF i] d show ?thesis
      unfolding step_retrieval_above_going_down [OF v i d]
      by (auto split: if_splits simp: arrive_def abandon_def)
  next
    case d: retrieval_below_going_up
    from assms(1) retrieval_below_room [OF i] d show ?thesis
      unfolding step_retrieval_below_going_up [OF v i d]
      by (auto split: if_splits simp: arrive_def abandon_def)
  next
    case d: retrieval_below_going_down
    from assms(1) retrieval_below_room [OF i] d show ?thesis
      unfolding step_retrieval_below_going_down [OF v i d]
      by (auto split: if_splits simp: arrive_def abandon_def)
  qed
qed

text \<open>
  A call of \<open>move\<close> that returns from a state with the invariant returns normally, and
  the invariant holds again.
\<close>

lemma move_returns_normally:
  assumes h: "move s e = Some r" and "in_elevators e" and "elevator_inv s e"
  shows "\<exists>s'. r = Ok s' \<and> elevator_inv s' e"
proof -
  have "in_elevators e \<longrightarrow> elevator_inv s e \<longrightarrow> (\<exists>s'. r = Ok s' \<and> elevator_inv s' e)"
  proof (rule move.raw_induct
      [where P = "\<lambda>s e r. in_elevators e \<longrightarrow> elevator_inv s e
                    \<longrightarrow> (\<exists>s'. r = Ok s' \<and> elevator_inv s' e)", OF _ h], intro impI)
    fix mv s e r
    assume ih: "\<And>t e u. mv t e = Some u \<Longrightarrow>
        in_elevators e \<longrightarrow> elevator_inv t e \<longrightarrow> (\<exists>s'. u = Ok s' \<and> elevator_inv s' e)"
      and eq: "(case move_step s e of
          None \<Rightarrow> None
        | Some (Ok (should_open_now, s')) \<Rightarrow>
            if should_open_now then Some (Ok s') else mv s' e
        | Some (Throw x t) \<Rightarrow> Some (Throw x t)
        | Some (Abort f) \<Rightarrow> Some (Abort f)) = Some r"
      and v: "in_elevators e" and i: "elevator_inv s e"
    from move_step_no_failure [OF v i] eq obtain b t where
      m: "move_step s e = Some (Ok (b, t))"
      by auto
    then have it: "elevator_inv t e"
      using i by (rule inv_move_step_same)
    show "\<exists>s'. r = Ok s' \<and> elevator_inv s' e"
    proof (cases b)
      case True
      with eq m it show ?thesis by auto
    next
      case False
      with eq m have "mv t e = Some r" by simp
      from ih [OF this] v it show ?thesis by simp
    qed
  qed
  with assms(2,3) show ?thesis by simp
qed

section \<open>The destination between calls\<close>












section \<open>Properties of the reachable states\<close>

text \<open>
  Inside a call of \<open>move\<close> things are different: after the step that enters
  \<open>retrieval_above_going_down\<close>, a \<open>press_inside\<close> would find that direction, reset
  it to \<open>neutral\<close> and leave the destination as it is, since the reset assigns the
  direction only. No sequence of complete calls reaches such a state.
\<close>

lemma press_inside_mid_move_keeps_destination:
  "move_step hall_call_1_down 0 = Some (Ok (False, retrieving_1))
   \<and> directions retrieving_1 0 = retrieval_above_going_down
   \<and> destinations retrieving_1 0 = 1
   \<and> press_inside retrieving_1 0 2 = Ok pressed_while_retrieving
   \<and> directions pressed_while_retrieving 0 = neutral
   \<and> destinations pressed_while_retrieving 0 = 1"
  using run_retrieving_1 run_pressed_while_retrieving
  by (simp add: retrieving_1_def pressed_while_retrieving_def)





text \<open>
  Claim C8 (floor bounds): in every reachable state the floor of every valid elevator is a
  floor of the building. A scheduler step of the elevator never fails an assertion and never
  reads outside an array: it either does not return (the search of the \<open>neutral\<close> case) or
  returns normally, and so does a whole call of \<open>move\<close>. A step leaves the floors as
  they are or moves this elevator by one floor, up only from below the top floor and down
  only from above the bottom floor. The buttons and the door cycle do not change any floor,
  and \<open>reset\<close> puts the elevator on floor 0.
\<close>

theorem floor_bounds_safety:
  assumes "reachable s" and "in_elevators e"
  shows "in_floors (floors s e)
       \<and> (move_step s e = None \<or> (\<exists>b s'. move_step s e = Some (Ok (b, s'))))
       \<and> (move s e = None \<or> (\<exists>s'. move s e = Some (Ok s')))
       \<and> (\<forall>b s'. move_step s e = Some (Ok (b, s')) \<longrightarrow>
             floors s' = floors s
           \<or> floors s e < NUM_FLOORS - 1 \<and> floors s' = (floors s)(e := floors s e + 1)
           \<or> 0 < floors s e \<and> floors s' = (floors s)(e := floors s e - 1))
       \<and> (\<forall>floor dir s'. press_outside s floor dir = Ok s' \<longrightarrow> floors s' = floors s)
       \<and> (\<forall>elevator floor s'. press_inside s elevator floor = Ok s' \<longrightarrow> floors s' = floors s)
       \<and> (\<forall>elevator s'. open s elevator = Ok s' \<longrightarrow> floors s' = floors s)
       \<and> floors (reset s) e = 0"
proof (intro conjI allI impI)
  note i = reachable_inv [OF assms]
  show "in_floors (floors s e)"
    using i by (rule inv_floor)
  show "move_step s e = None \<or> (\<exists>b s'. move_step s e = Some (Ok (b, s')))"
    using assms(2) i by (rule move_step_no_failure)
  show "move s e = None \<or> (\<exists>s'. move s e = Some (Ok s'))"
    using move_returns_normally [OF _ assms(2) i] by (cases "move s e") auto
  show "floors s' = floors s
           \<or> floors s e < NUM_FLOORS - 1 \<and> floors s' = (floors s)(e := floors s e + 1)
           \<or> 0 < floors s e \<and> floors s' = (floors s)(e := floors s e - 1)"
    if "move_step s e = Some (Ok (b, s'))" for b s'
    using that i by (rule move_step_floor)
  show "floors s' = floors s" if "press_outside s floor dir = Ok s'" for floor dir s'
    using press_outside_frame [of s floor dir s'] that by simp
  show "floors s' = floors s" if "press_inside s elevator floor = Ok s'" for elevator floor s'
    using press_inside_frame [OF that] by simp
  show "floors s' = floors s" if "open s elevator = Ok s'" for elevator s'
    using open_same [of s elevator s'] that by simp
  show "floors (reset s) e = 0"
    using assms(2) by (simp add: reset_floors)
qed

theorem floor_bounds_safety_witness:
  "reachable going_up \<and> in_elevators 0
   \<and> in_floors (floors going_up 0)
   \<and> move_step going_up 0
       = Some (Ok (False, going_up\<lparr>floors := (floors going_up)(0 := floors going_up 0 + 1)\<rparr>))
   \<and> floors going_up 0 < NUM_FLOORS - 1"
proof -
  define t where "t = going_up\<lparr>floors := (floors going_up)(0 := floors going_up 0 + 1)\<rparr>"
  have f: "directions going_up 0 = up" "floors going_up 0 = 0"
    "higher_floors_pressed going_up 0 = [2, 2]" "\<not> up_button going_up 0"
    by (simp_all add: going_up_def pressed_twice_def pressed_once_def reset_simps
          zero_in_elevators in_floors_cases)
  have m: "move_step going_up 0 = Some (Ok (False, t))"
    by (simp add: move_step_def zero_in_elevators f in_floors_cases top_of_pq_equal_floor_def
          keep_moving_def move_up_one_floor_def NUM_FLOORS_def t_def)
  note c = floor_bounds_safety [OF reachable_going_up zero_in_elevators]
  from c have a: "in_floors (floors going_up 0)"
    by (rule conjunct1)
  from c have "\<forall>b s'. move_step going_up 0 = Some (Ok (b, s')) \<longrightarrow>
             floors s' = floors going_up
           \<or> floors going_up 0 < NUM_FLOORS - 1
               \<and> floors s' = (floors going_up)(0 := floors going_up 0 + 1)
           \<or> 0 < floors going_up 0 \<and> floors s' = (floors going_up)(0 := floors going_up 0 - 1)"
    by (elim conjE)
  with m have "floors t = floors going_up
           \<or> floors going_up 0 < NUM_FLOORS - 1
               \<and> floors t = (floors going_up)(0 := floors going_up 0 + 1)
           \<or> 0 < floors going_up 0 \<and> floors t = (floors going_up)(0 := floors going_up 0 - 1)"
    by blast
  moreover have "floors t 0 = 1"
    by (simp add: t_def f)
  then have "floors t \<noteq> floors going_up"
    using f(2) by (metis zero_neq_one)
  ultimately have "floors going_up 0 < NUM_FLOORS - 1"
    using f(2) by auto
  with a m reachable_going_up zero_in_elevators show ?thesis
    unfolding t_def by blast
qed

text \<open>
  Claim C10: in every reachable state, a valid elevator whose direction is
  \<open>retrieval_above_going_down\<close> or \<open>retrieval_below_going_up\<close> has both cabin queues
  empty.
\<close>

theorem abandoned_retrievals_have_empty_queues:
  assumes "reachable s" and "in_elevators e"
    and "directions s e = retrieval_above_going_down \<or> directions s e = retrieval_below_going_up"
  shows "higher_floors_pressed s e = [] \<and> lower_floors_pressed s e = []"
  using retrieval_queues_empty [OF reachable_inv [OF assms(1,2)] assms(3)] by simp

theorem abandoned_retrievals_have_empty_queues_witness:
  "reachable retrieving_1 \<and> in_elevators 0
   \<and> directions retrieving_1 0 = retrieval_above_going_down
   \<and> higher_floors_pressed retrieving_1 0 = [] \<and> lower_floors_pressed retrieving_1 0 = []"
proof -
  have d: "directions retrieving_1 0 = retrieval_above_going_down"
    by (simp add: retrieving_1_def)
  then show ?thesis
    using abandoned_retrievals_have_empty_queues [OF reachable_retrieving_1 zero_in_elevators]
      reachable_retrieving_1 zero_in_elevators
    by simp
qed

end
